theory Spec2Isabelle
  imports Main
begin

section \<open>JavaScript strings and numerals used by the node modal\<close>

text \<open>
  The development embeds the three helpers of \<^verbatim>\<open>src/features/modals/NodeModal/index.tsx\<close>
  (\<^verbatim>\<open>normalizeNodeData\<close>, \<^verbatim>\<open>jsonPathToString\<close>, \<^verbatim>\<open>updateJsonAtPath\<close>) and the handlers
  \<^verbatim>\<open>handleSave\<close>, \<^verbatim>\<open>handleEditToggle\<close> and \<^verbatim>\<open>handleCancel\<close>. \<^verbatim>\<open>updateJsonAtPath\<close> is
  embedded twice: on JSON values, for what it computes, and on a store of objects, for
  what it mutates and shares. Strings are \<open>string\<close>; the host functions the helpers call
  (\<^verbatim>\<open>String.prototype.split\<close>, \<^verbatim>\<open>Array.prototype.join\<close>, \<^verbatim>\<open>Number\<close>, \<^verbatim>\<open>JSON.stringify\<close>,
  \<^verbatim>\<open>Object.entries\<close>) are written out; \<^verbatim>\<open>JSON.parse\<close> is a parameter of \<^verbatim>\<open>handleSave\<close>.
\<close>

definition startsWith :: "string \<Rightarrow> string \<Rightarrow> bool" where
  "startsWith s p = (take (length p) s = p)"

text \<open>\<open>occurs sep s\<close>: the text \<open>sep\<close> occurs somewhere in \<open>s\<close> (\<^verbatim>\<open>s.includes(sep)\<close>).\<close>

fun occurs :: "string \<Rightarrow> string \<Rightarrow> bool" where
  "occurs sep [] = (sep = [])"
| "occurs sep (c # cs) = (startsWith (c # cs) sep \<or> occurs sep cs)"

text \<open>
  \<^verbatim>\<open>s.split(sep)\<close> for a non-empty separator: the pieces between the occurrences of
  \<open>sep\<close>, found from the left; always at least one piece. \<open>acc\<close> holds the
  current piece, reversed.
\<close>

function split_from :: "string \<Rightarrow> string \<Rightarrow> string \<Rightarrow> string list" where
  "split_from sep acc [] = [rev acc]"
| "split_from sep acc (c # cs) =
     (if sep \<noteq> [] \<and> startsWith (c # cs) sep
      then rev acc # split_from sep [] (drop (length sep) (c # cs))
      else split_from sep (c # acc) cs)"
  by pat_completeness auto
termination
  by (relation "measure (\<lambda>(sep, acc, s). length s)") auto

definition split :: "string \<Rightarrow> string \<Rightarrow> string list" where
  "split sep s = split_from sep [] s"

text \<open>\<^verbatim>\<open>xs.join(sep)\<close> on a list of strings.\<close>

fun join :: "string \<Rightarrow> string list \<Rightarrow> string" where
  "join sep [] = []"
| "join sep [x] = x"
| "join sep (x # y # ys) = x @ sep @ join sep (y # ys)"

subsection \<open>Decimal numerals\<close>

definition digit_char :: "nat \<Rightarrow> char" where
  "digit_char d = char_of (48 + d)"

definition is_digit :: "char \<Rightarrow> bool" where
  "is_digit c = (48 \<le> (of_char c :: nat) \<and> (of_char c :: nat) \<le> 57)"

definition digit_val :: "char \<Rightarrow> nat" where
  "digit_val c = of_char c - 48"

text \<open>
  Strings are sequences of code units below 256. An \<open>int\<close> stands for the JavaScript
  number of that value; the numbers are doubles, so this is exact for the safe integers,
  those of magnitude below \<open>2^53\<close>.
\<close>

definition safe_integer :: "int \<Rightarrow> bool" where
  "safe_integer n = (- 9007199254740991 \<le> n \<and> n \<le> 9007199254740991)"

text \<open>
  \<^verbatim>\<open>String(n)\<close> for an integer: its decimal digits, no leading zero, after the sign.
  (JavaScript prints these digits for the safe integers; from \<open>10^21\<close> on it prints an
  exponent.)
\<close>

function int_digits :: "int \<Rightarrow> string" where
  "int_digits n =
     (if n < 10 then [digit_char (nat n)] else int_digits (n div 10) @ [digit_char (nat (n mod 10))])"
  by pat_completeness auto
termination
  by (relation "measure nat") auto

declare int_digits.simps [simp del]

definition int_to_string :: "int \<Rightarrow> string" where
  "int_to_string i = (if i < 0 then CHR ''-'' # int_digits (- i) else int_digits i)"

definition digits_value :: "string \<Rightarrow> int" where
  "digits_value ds = foldl (\<lambda>a c. 10 * a + int (digit_val c)) 0 ds"

subsection \<open>\<^verbatim>\<open>Number(s)\<close> on strings\<close>

text \<open>
  \<^verbatim>\<open>Number\<close> trims white space and reads the text that is left as a numeric literal
  (\<^verbatim>\<open>StringNumericLiteral\<close>): the empty text is \<open>0\<close>; an optionally signed run of decimal
  digits is that integer (read here at its exact value, where JavaScript rounds a value
  that is not a safe integer to the nearest double); a text that is no numeric literal is
  \<^verbatim>\<open>NaN\<close>. The other literals (a fraction, an exponent, \<^verbatim>\<open>Infinity\<close>, and the
  \<^verbatim>\<open>0x\<close>, \<^verbatim>\<open>0o\<close>, \<^verbatim>\<open>0b\<close> forms) are numbers whose value is not computed here:
  \<open>Unmodelled\<close>.
\<close>

datatype js_number = NaN | IntVal int | Unmodelled

definition is_ws :: "char \<Rightarrow> bool" where
  "is_ws c = (c \<in> set [CHR '' '', CHR 0x09, CHR 0x0A, CHR 0x0B, CHR 0x0C, CHR 0x0D, CHR 0xA0])"

definition trim :: "string \<Rightarrow> string" where
  "trim s = rev (dropWhile is_ws (rev (dropWhile is_ws s)))"

definition is_digits :: "string \<Rightarrow> bool" where
  "is_digits ds = (ds \<noteq> [] \<and> list_all is_digit ds)"

definition strip_sign :: "string \<Rightarrow> string" where
  "strip_sign t = (if t \<noteq> [] \<and> (hd t = CHR ''+'' \<or> hd t = CHR ''-'') then tl t else t)"

text \<open>\<^verbatim>\<open>ExponentPart\<close>, or nothing.\<close>

definition exponent_opt :: "string \<Rightarrow> bool" where
  "exponent_opt r =
     (r = [] \<or> ((hd r = CHR ''e'' \<or> hd r = CHR ''E'') \<and> is_digits (strip_sign (tl r))))"

text \<open>\<^verbatim>\<open>StrUnsignedDecimalLiteral\<close>.\<close>

definition unsigned_decimal :: "string \<Rightarrow> bool" where
  "unsigned_decimal u =
     (u = ''Infinity'' \<or>
      (if dropWhile is_digit u \<noteq> [] \<and> hd (dropWhile is_digit u) = CHR ''.''
       then (takeWhile is_digit u \<noteq> [] \<or> takeWhile is_digit (tl (dropWhile is_digit u)) \<noteq> [])
            \<and> exponent_opt (dropWhile is_digit (tl (dropWhile is_digit u)))
       else takeWhile is_digit u \<noteq> [] \<and> exponent_opt (dropWhile is_digit u)))"

text \<open>\<^verbatim>\<open>NonDecimalIntegerLiteral\<close>: binary, octal or hexadecimal digits after the prefix.\<close>

definition non_decimal :: "string \<Rightarrow> bool" where
  "non_decimal t =
     (case t of
        z # p # ds \<Rightarrow>
          z = CHR ''0'' \<and> ds \<noteq> [] \<and>
          ((p \<in> set ''bB'' \<and> list_all (\<lambda>c. c \<in> set ''01'') ds) \<or>
           (p \<in> set ''oO'' \<and> list_all (\<lambda>c. c \<in> set ''01234567'') ds) \<or>
           (p \<in> set ''xX'' \<and> list_all (\<lambda>c. c \<in> set ''0123456789abcdefABCDEF'') ds))
      | _ \<Rightarrow> False)"

definition Number :: "string \<Rightarrow> js_number" where
  "Number s =
     (let t = trim s in
      if t = [] then IntVal 0
      else if is_digits (strip_sign t)
      then IntVal (if hd t = CHR ''-'' then - digits_value (strip_sign t) else digits_value (strip_sign t))
      else if unsigned_decimal (strip_sign t) \<or> non_decimal t then Unmodelled
      else NaN)"

section \<open>Structural paths and their text form\<close>

text \<open>A path segment is a number or a string (\<^verbatim>\<open>JSONPath = (string | number)[]\<close>).\<close>

datatype segment = Num int | Str string

text \<open>
  \<^verbatim>\<open>jsonPathToString\<close>: \<open>None\<close> is the absent argument (\<^verbatim>\<open>path?\<close>).
\<close>

definition segment_text :: "segment \<Rightarrow> string" where
  "segment_text seg = (case seg of Num n \<Rightarrow> int_to_string n | Str s \<Rightarrow> ''\"'' @ s @ ''\"'')"

definition jsonPathToString :: "segment list option \<Rightarrow> string" where
  "jsonPathToString path =
     (case path of
        None \<Rightarrow> ''$''
      | Some p \<Rightarrow> if p = [] then ''$'' else ''$['' @ join ''][''  (map segment_text p) @ '']'')"

text \<open>
  The first statement of \<^verbatim>\<open>updateJsonAtPath\<close>:
  \<^verbatim>\<open>path.replace(/^\$\[|\]$/g, "").split("][").map(seg => isNaN(Number(seg)) ? seg.replace(/"/g, "") : Number(seg))\<close>.
  The regular expression removes a leading \<^verbatim>\<open>$[\<close> and a trailing \<^verbatim>\<open>]\<close>.
  The result is \<open>None\<close> when \<open>Number\<close> is not decided on some piece.
\<close>

definition strip_brackets :: "string \<Rightarrow> string" where
  "strip_brackets s =
     (let s1 = (if startsWith s ''$['' then drop 2 s else s)
      in if s1 \<noteq> [] \<and> last s1 = CHR '']'' then butlast s1 else s1)"

definition parse_segment :: "string \<Rightarrow> segment option" where
  "parse_segment seg =
     (case Number seg of
        NaN \<Rightarrow> Some (Str (filter (\<lambda>c. c \<noteq> CHR ''\"'') seg))
      | IntVal n \<Rightarrow> Some (Num n)
      | Unmodelled \<Rightarrow> None)"

fun sequence_options :: "'a option list \<Rightarrow> 'a list option" where
  "sequence_options [] = Some []"
| "sequence_options (x # xs) =
     (case x of None \<Rightarrow> None
      | Some y \<Rightarrow> (case sequence_options xs of None \<Rightarrow> None | Some ys \<Rightarrow> Some (y # ys)))"

definition pathSegments :: "string \<Rightarrow> segment list option" where
  "pathSegments path = sequence_options (map parse_segment (split ''][''  (strip_brackets path)))"

section \<open>JSON values\<close>

text \<open>
  The values \<^verbatim>\<open>JSON.parse\<close> returns. Numbers are taken at integer values. An object is
  the list of its own properties in the order \<^verbatim>\<open>Object.entries\<close> and
  \<^verbatim>\<open>JSON.stringify\<close> visit them: array-index keys first, ascending, then the other
  keys in insertion order.
\<close>

datatype json =
    JNull
  | JBool bool
  | JNum int
  | JStr string
  | JArr "json list"
  | JObj "(string \<times> json) list"

text \<open>\<^verbatim>\<open>x || {}\<close> tests truthiness.\<close>

fun truthy :: "json \<Rightarrow> bool" where
  "truthy JNull = False"
| "truthy (JBool b) = b"
| "truthy (JNum n) = (n \<noteq> 0)"
| "truthy (JStr s) = (s \<noteq> [])"
| "truthy (JArr xs) = True"
| "truthy (JObj kvs) = True"

text \<open>\<^verbatim>\<open>typeof x === "object"\<close>: objects, arrays, and \<^verbatim>\<open>null\<close>.\<close>

fun typeof_object :: "json \<Rightarrow> bool" where
  "typeof_object JNull = True"
| "typeof_object (JArr xs) = True"
| "typeof_object (JObj kvs) = True"
| "typeof_object (JBool b) = False"
| "typeof_object (JNum n) = False"
| "typeof_object (JStr s) = False"

text \<open>
  A property key is an array index when it is the decimal text of an integer below
  \<open>2^32 - 1\<close>.
\<close>

definition is_array_index :: "string \<Rightarrow> bool" where
  "is_array_index k =
     (is_digits k \<and> (k = ''0'' \<or> hd k \<noteq> CHR ''0'') \<and> digits_value k < 4294967295)"

text \<open>
  \<^verbatim>\<open>obj[k] = v\<close> on an object that has or can take \<open>k\<close> as an own data property: an
  existing key keeps its place; a new array-index key goes among the index keys in
  ascending order; any other new key goes last.
\<close>

text \<open>The position an array-index key denotes.\<close>

definition array_index :: "string \<Rightarrow> nat" where
  "array_index k = nat (digits_value k)"

definition index_before :: "string \<Rightarrow> string \<times> 'v \<Rightarrow> bool" where
  "index_before k kv = (is_array_index (fst kv) \<and> digits_value (fst kv) < digits_value k)"

definition obj_set :: "string \<Rightarrow> 'v \<Rightarrow> (string \<times> 'v) list \<Rightarrow> (string \<times> 'v) list" where
  "obj_set k v kvs =
     (if k \<in> fst ` set kvs then map (\<lambda>kv. if fst kv = k then (k, v) else kv) kvs
      else if is_array_index k
      then takeWhile (index_before k) kvs @ (k, v) # dropWhile (index_before k) kvs
      else kvs @ [(k, v)])"

text \<open>
  The property names every object inherits from \<^verbatim>\<open>Object.prototype\<close>. Reading one of
  them on an object that has no own property of that name gives a function (or the
  prototype), which is not a JSON value.
\<close>

definition Object_prototype_keys :: "string list" where
  "Object_prototype_keys =
     [''__proto__'', ''constructor'', ''hasOwnProperty'', ''isPrototypeOf'',
      ''propertyIsEnumerable'', ''toLocaleString'', ''toString'', ''valueOf'',
      ''__defineGetter__'', ''__defineSetter__'', ''__lookupGetter__'', ''__lookupSetter__'']"

text \<open>
  A call returns a value, throws a \<^verbatim>\<open>TypeError\<close>, or continues with values that are
  not JSON values (\<open>Outside\<close>: inherited members, array properties that are not
  indices, arrays with holes); what the source does from there on is not described.
\<close>

datatype 'a outcome = Returns 'a | TypeError | Outside

text \<open>\<^verbatim>\<open>String(segment)\<close>, the property key a segment addresses.\<close>

definition property_key :: "segment \<Rightarrow> string" where
  "property_key seg = (case seg of Num n \<Rightarrow> int_to_string n | Str s \<Rightarrow> s)"

text \<open>
  \<^verbatim>\<open>current[k] = v\<close> in strict mode (the file is an ES module). It throws on \<^verbatim>\<open>null\<close>
  and on the primitives; \<^verbatim>\<open>__proto__\<close> reaches the inherited setter instead.
\<close>

fun set_property :: "json \<Rightarrow> string \<Rightarrow> json \<Rightarrow> json outcome" where
  "set_property JNull k v = TypeError"
| "set_property (JBool b) k v = (if k = ''__proto__'' then Outside else TypeError)"
| "set_property (JNum n) k v = (if k = ''__proto__'' then Outside else TypeError)"
| "set_property (JStr s) k v = (if k = ''__proto__'' then Outside else TypeError)"
| "set_property (JArr xs) k v =
     (if is_array_index k \<and> digits_value k < int (length xs) then Returns (JArr (xs[array_index k := v]))
      else if is_array_index k \<and> digits_value k = int (length xs) then Returns (JArr (xs @ [v]))
      else Outside)"
| "set_property (JObj kvs) k v =
     (if k = ''__proto__'' \<and> k \<notin> fst ` set kvs then Outside
      else Returns (JObj (obj_set k v kvs)))"

text \<open>
  One turn of the loop, \<^verbatim>\<open>current = current[k] = current[k] || {}\<close>: the value
  \<open>current\<close> moves to. Reading a property of \<^verbatim>\<open>null\<close> throws; on a primitive the read
  succeeds and the write throws.
\<close>

fun vivify :: "json \<Rightarrow> string \<Rightarrow> json outcome" where
  "vivify JNull k = TypeError"
| "vivify (JBool b) k = (if k = ''__proto__'' then Outside else TypeError)"
| "vivify (JNum n) k = (if k = ''__proto__'' then Outside else TypeError)"
| "vivify (JStr s) k = (if k = ''__proto__'' then Outside else TypeError)"
| "vivify (JArr xs) k =
     (if is_array_index k \<and> digits_value k < int (length xs)
      then Returns (if truthy (xs ! array_index k) then xs ! array_index k else JObj [])
      else if is_array_index k \<and> digits_value k = int (length xs) then Returns (JObj [])
      else Outside)"
| "vivify (JObj kvs) k =
     (case map_of kvs k of
        Some child \<Rightarrow> Returns (if truthy child then child else JObj [])
      | None \<Rightarrow> if k \<in> set Object_prototype_keys then Outside else Returns (JObj []))"

text \<open>
  The loop and the final assignment of \<^verbatim>\<open>updateJsonAtPath\<close>, on the property keys of the
  segments. \<open>current\<close> is a reference into the clone, so what is written below it is
  written into the clone: the value returned here is the parent with the updated child
  stored back under \<open>k\<close>. An empty segment list does not arise (\<open>split\<close> returns at
  least one piece); \<^verbatim>\<open>pathSegments[-1]\<close> would be \<^verbatim>\<open>undefined\<close>.
\<close>

fun assign_path :: "json \<Rightarrow> string list \<Rightarrow> json \<Rightarrow> json outcome" where
  "assign_path current [] newValue = set_property current ''undefined'' newValue"
| "assign_path current [k] newValue = set_property current k newValue"
| "assign_path current (k # ks) newValue =
     (case vivify current k of
        Returns child \<Rightarrow>
          (case assign_path child ks newValue of
             Returns child' \<Rightarrow> set_property current k child'
           | TypeError \<Rightarrow> TypeError
           | Outside \<Rightarrow> Outside)
      | TypeError \<Rightarrow> TypeError
      | Outside \<Rightarrow> Outside)"

text \<open>
  \<^verbatim>\<open>JSON.parse(JSON.stringify(jsonObj))\<close> builds a fresh copy of a JSON value, equal to it
  as a value.
\<close>

definition clone :: "json \<Rightarrow> json" where
  "clone jsonObj = jsonObj"

definition updateJsonAtPath :: "json \<Rightarrow> string \<Rightarrow> json \<Rightarrow> json outcome" where
  "updateJsonAtPath jsonObj path newValue =
     (if path = [] then Returns jsonObj
      else case pathSegments path of
        None \<Rightarrow> Outside
      | Some segs \<Rightarrow> assign_path (clone jsonObj) (map property_key segs) newValue)"

subsection \<open>\<^verbatim>\<open>JSON.stringify(value, null, 2)\<close>\<close>

definition hex_char :: "nat \<Rightarrow> char" where
  "hex_char d = (if d < 10 then char_of (48 + d) else char_of (87 + d))"

text \<open>The escapes of a quoted JSON string.\<close>

definition escape_char :: "char \<Rightarrow> string" where
  "escape_char c =
     (if c = CHR 0x22 then [CHR 0x5C, CHR 0x22]
      else if c = CHR 0x5C then [CHR 0x5C, CHR 0x5C]
      else if c = CHR 0x08 then [CHR 0x5C, CHR ''b'']
      else if c = CHR 0x0C then [CHR 0x5C, CHR ''f'']
      else if c = CHR 0x0A then [CHR 0x5C, CHR ''n'']
      else if c = CHR 0x0D then [CHR 0x5C, CHR ''r'']
      else if c = CHR 0x09 then [CHR 0x5C, CHR ''t'']
      else if (of_char c :: nat) < 32
      then [CHR 0x5C, CHR ''u'', CHR ''0'', CHR ''0'',
            hex_char ((of_char c :: nat) div 16), hex_char ((of_char c :: nat) mod 16)]
      else [c])"

definition quote :: "string \<Rightarrow> string" where
  "quote s = CHR 0x22 # concat (map escape_char s) @ [CHR 0x22]"

text \<open>\<open>stringify ind v\<close>: the text of \<open>v\<close> inside a container indented by \<open>ind\<close>.\<close>

fun stringify :: "string \<Rightarrow> json \<Rightarrow> string" where
  "stringify ind JNull = ''null''"
| "stringify ind (JBool b) = (if b then ''true'' else ''false'')"
| "stringify ind (JNum n) = int_to_string n"
| "stringify ind (JStr s) = quote s"
| "stringify ind (JArr xs) =
     (if xs = [] then ''[]''
      else ''['' @ [CHR 0x0A] @ (ind @ ''  '')
           @ join ('','' @ [CHR 0x0A] @ (ind @ ''  '')) (map (stringify (ind @ ''  '')) xs)
           @ [CHR 0x0A] @ ind @ '']'')"
| "stringify ind (JObj kvs) =
     (if kvs = [] then ''{}''
      else ''{'' @ [CHR 0x0A] @ (ind @ ''  '')
           @ join ('','' @ [CHR 0x0A] @ (ind @ ''  ''))
               (map (\<lambda>kv. quote (fst kv) @ '': '' @ stringify (ind @ ''  '') (snd kv)) kvs)
           @ [CHR 0x0A] @ ind @ ''}'')"

definition JSON_stringify :: "json \<Rightarrow> string" where
  "JSON_stringify v = stringify [] v"

section \<open>\<^verbatim>\<open>updateJsonAtPath\<close> on a store of objects\<close>

text \<open>
  To speak about mutation and sharing, objects and arrays live in a store: a list of
  cells, an address being an index into it, and a value being a primitive or a
  reference to a cell. A new object takes the next free address, the length of the store.
\<close>

type_synonym addr = nat

datatype hval = HNull | HBool bool | HNum int | HStr string | HRef addr

datatype cell = ObjCell "(string \<times> hval) list" | ArrCell "hval list"

type_synonym heap = "cell list"

fun truthy_h :: "hval \<Rightarrow> bool" where
  "truthy_h HNull = False"
| "truthy_h (HBool b) = b"
| "truthy_h (HNum n) = (n \<noteq> 0)"
| "truthy_h (HStr s) = (s \<noteq> [])"
| "truthy_h (HRef a) = True"

text \<open>
  \<^verbatim>\<open>JSON.stringify\<close> walks the value; the JSON value it writes is what \<^verbatim>\<open>JSON.parse\<close>
  reads back. \<open>None\<close> when the fuel runs out or a reference dangles.
\<close>

fun read_json :: "nat \<Rightarrow> heap \<Rightarrow> hval \<Rightarrow> json option" where
  "read_json fuel h HNull = Some JNull"
| "read_json fuel h (HBool b) = Some (JBool b)"
| "read_json fuel h (HNum n) = Some (JNum n)"
| "read_json fuel h (HStr s) = Some (JStr s)"
| "read_json 0 h (HRef a) = None"
| "read_json (Suc fuel) h (HRef a) =
     (if a < length h then
        (case h ! a of
           ObjCell kvs \<Rightarrow>
             map_option JObj
               (sequence_options (map (\<lambda>kv. map_option (Pair (fst kv)) (read_json fuel h (snd kv))) kvs))
         | ArrCell xs \<Rightarrow> map_option JArr (sequence_options (map (read_json fuel h) xs)))
      else None)"

text \<open>\<^verbatim>\<open>JSON.parse\<close> builds its result from new objects only.\<close>

fun alloc_json :: "json \<Rightarrow> heap \<Rightarrow> hval \<times> heap"
  and alloc_elems :: "json list \<Rightarrow> heap \<Rightarrow> hval list \<times> heap"
  and alloc_props :: "(string \<times> json) list \<Rightarrow> heap \<Rightarrow> (string \<times> hval) list \<times> heap" where
  "alloc_json JNull h = (HNull, h)"
| "alloc_json (JBool b) h = (HBool b, h)"
| "alloc_json (JNum n) h = (HNum n, h)"
| "alloc_json (JStr s) h = (HStr s, h)"
| "alloc_json (JArr xs) h =
     (case alloc_elems xs h of (vs, h1) \<Rightarrow> (HRef (length h1), h1 @ [ArrCell vs]))"
| "alloc_json (JObj kvs) h =
     (case alloc_props kvs h of (ps, h1) \<Rightarrow> (HRef (length h1), h1 @ [ObjCell ps]))"
| "alloc_elems [] h = ([], h)"
| "alloc_elems (x # xs) h =
     (case alloc_json x h of (v, h1) \<Rightarrow>
        (case alloc_elems xs h1 of (vs, h2) \<Rightarrow> (v # vs, h2)))"
| "alloc_props [] h = ([], h)"
| "alloc_props (kv # kvs) h =
     (case alloc_json (snd kv) h of (v, h1) \<Rightarrow>
        (case alloc_props kvs h1 of (ps, h2) \<Rightarrow> ((fst kv, v) # ps, h2)))"

text \<open>
  \<^verbatim>\<open>current[k] = v\<close> on the store, with the cases of \<open>set_property\<close>. The store comes
  back with every outcome.
\<close>

fun heap_set_property :: "heap \<Rightarrow> hval \<Rightarrow> string \<Rightarrow> hval \<Rightarrow> heap \<times> unit outcome" where
  "heap_set_property h (HRef a) k v =
     (if a < length h then
        (case h ! a of
           ArrCell xs \<Rightarrow>
             (if is_array_index k \<and> digits_value k < int (length xs)
              then (h[a := ArrCell (xs[array_index k := v])], Returns ())
              else if is_array_index k \<and> digits_value k = int (length xs)
              then (h[a := ArrCell (xs @ [v])], Returns ())
              else (h, Outside))
         | ObjCell kvs \<Rightarrow>
             (if k = ''__proto__'' \<and> k \<notin> fst ` set kvs then (h, Outside)
              else (h[a := ObjCell (obj_set k v kvs)], Returns ())))
      else (h, Outside))"
| "heap_set_property h HNull k v = (h, TypeError)"
| "heap_set_property h current k v = (h, if k = ''__proto__'' then Outside else TypeError)"

text \<open>
  \<^verbatim>\<open>current[k] || {}\<close>: the value found when it is truthy, else a new empty object.
\<close>

definition or_new_object :: "heap \<Rightarrow> hval option \<Rightarrow> heap \<times> hval" where
  "or_new_object h found =
     (case found of
        Some child \<Rightarrow> if truthy_h child then (h, child) else (h @ [ObjCell []], HRef (length h))
      | None \<Rightarrow> (h @ [ObjCell []], HRef (length h)))"

text \<open>One turn of the loop on the store, with the cases of \<open>vivify\<close>.\<close>

fun heap_vivify :: "heap \<Rightarrow> hval \<Rightarrow> string \<Rightarrow> heap \<times> hval outcome" where
  "heap_vivify h (HRef a) k =
     (if a < length h then
        (case h ! a of
           ArrCell xs \<Rightarrow>
             (if is_array_index k \<and> digits_value k < int (length xs)
              then (case or_new_object h (Some (xs ! array_index k)) of
                      (h1, child) \<Rightarrow> (h1[a := ArrCell (xs[array_index k := child])], Returns child))
              else if is_array_index k \<and> digits_value k = int (length xs)
              then (case or_new_object h None of
                      (h1, child) \<Rightarrow> (h1[a := ArrCell (xs @ [child])], Returns child))
              else (h, Outside))
         | ObjCell kvs \<Rightarrow>
             (if map_of kvs k = None \<and> k \<in> set Object_prototype_keys then (h, Outside)
              else (case or_new_object h (map_of kvs k) of
                      (h1, child) \<Rightarrow> (h1[a := ObjCell (obj_set k child kvs)], Returns child))))
      else (h, Outside))"
| "heap_vivify h HNull k = (h, TypeError)"
| "heap_vivify h current k = (h, if k = ''__proto__'' then Outside else TypeError)"

fun heap_assign_path :: "heap \<Rightarrow> hval \<Rightarrow> string list \<Rightarrow> hval \<Rightarrow> heap \<times> unit outcome" where
  "heap_assign_path h current [] newValue = heap_set_property h current ''undefined'' newValue"
| "heap_assign_path h current [k] newValue = heap_set_property h current k newValue"
| "heap_assign_path h current (k # ks) newValue =
     (case heap_vivify h current k of
        (h1, Returns child) \<Rightarrow> heap_assign_path h1 child ks newValue
      | (h1, TypeError) \<Rightarrow> (h1, TypeError)
      | (h1, Outside) \<Rightarrow> (h1, Outside))"

text \<open>
  \<^verbatim>\<open>updateJsonAtPath\<close> on the store. \<^verbatim>\<open>JSON.stringify\<close> throws a \<^verbatim>\<open>TypeError\<close> on a
  circular structure; a walk deeper than the number of cells has met one.
\<close>

definition updateJsonAtPath_heap :: "heap \<Rightarrow> hval \<Rightarrow> string \<Rightarrow> hval \<Rightarrow> heap \<times> hval outcome" where
  "updateJsonAtPath_heap h jsonObj path newValue =
     (if path = [] then (h, Returns jsonObj)
      else case pathSegments path of
        None \<Rightarrow> (h, Outside)
      | Some segs \<Rightarrow>
          (case read_json (Suc (length h)) h jsonObj of
             None \<Rightarrow> (h, TypeError)
           | Some j \<Rightarrow>
               (case alloc_json j h of
                  (clonedJson, h1) \<Rightarrow>
                    (case heap_assign_path h1 clonedJson (map property_key segs) newValue of
                       (h2, Returns u) \<Rightarrow> (h2, Returns clonedJson)
                     | (h2, TypeError) \<Rightarrow> (h2, TypeError)
                     | (h2, Outside) \<Rightarrow> (h2, Outside)))))"

section \<open>Node rows and \<^verbatim>\<open>normalizeNodeData\<close>\<close>

text \<open>
  A row of a node (\<^verbatim>\<open>NodeData["text"][number]\<close>): the key (\<open>None\<close> is \<^verbatim>\<open>null\<close>), the value
  and the type tag. \<^verbatim>\<open>handleSave\<close> stores any parsed value in a row, so the value is a
  \<open>json\<close>.
\<close>

record row =
  key :: "string option"
  val :: json
  type :: string

text \<open>\<^verbatim>\<open>!row.key\<close> holds for \<^verbatim>\<open>null\<close> and for the empty string.\<close>

definition key_truthy :: "row \<Rightarrow> bool" where
  "key_truthy r = (case key r of None \<Rightarrow> False | Some k \<Rightarrow> k \<noteq> [])"

text \<open>
  The reducer of \<^verbatim>\<open>normalizeNodeData\<close>. The accumulator starts as \<^verbatim>\<open>{}\<close>; the value
  stored is never an object, so \<^verbatim>\<open>acc["__proto__"] = value\<close> reaches the inherited setter,
  which ignores it.
\<close>

definition compact_step :: "(string \<times> json) list \<Rightarrow> row \<Rightarrow> (string \<times> json) list" where
  "compact_step acc r =
     (if key_truthy r \<and> \<not> typeof_object (val r)
      then (if the (key r) = ''__proto__'' then acc else obj_set (the (key r)) (val r) acc)
      else acc)"

definition compactJson :: "row list \<Rightarrow> json" where
  "compactJson nodeRows = JObj (foldl compact_step [] nodeRows)"

definition normalizeNodeData :: "row list \<Rightarrow> string" where
  "normalizeNodeData nodeRows =
     (if nodeRows = [] then ''{}''
      else if length nodeRows = 1 \<and> \<not> key_truthy (hd nodeRows)
      then JSON_stringify (val (hd nodeRows))
      else JSON_stringify (compactJson nodeRows))"

section \<open>The edit workflow\<close>

text \<open>
  The selected node of the graph store (\<^verbatim>\<open>NodeData\<close>: \<^verbatim>\<open>id\<close>, \<^verbatim>\<open>text\<close>, \<^verbatim>\<open>path?\<close>; the
  layout fields play no part).
\<close>

record node =
  node_id :: string
  node_text :: "row list"
  node_path :: "segment list option"

datatype toast = Success string | Error string

text \<open>
  What the handlers of the modal read and write: the selected node of \<^verbatim>\<open>useGraph\<close>, the
  text \<^verbatim>\<open>getJson()\<close> returned at render time, the contents of \<^verbatim>\<open>useFile\<close> with the log
  of the texts passed to \<^verbatim>\<open>setContents\<close>, the two \<^verbatim>\<open>useState\<close> cells, and the toasts
  shown.
\<close>

record ui_state =
  selectedNode :: "node option"
  fullJson :: string
  contents :: string
  setContents_calls :: "string list"
  isEditing :: bool
  editedContent :: string
  toasts :: "toast list"

text \<open>
  Modelled from the spec: \<^verbatim>\<open>setContents\<close> of the document-text store (\<^verbatim>\<open>useFile\<close>, not
  part of this file), which overwrites the full document text. Each call is logged.
\<close>

definition setContents :: "string \<Rightarrow> ui_state \<Rightarrow> ui_state" where
  "setContents txt st = st\<lparr>contents := txt, setContents_calls := setContents_calls st @ [txt]\<rparr>"

text \<open>
  \<^verbatim>\<open>Object.entries(x)\<close>: throws on \<^verbatim>\<open>null\<close> (\<open>None\<close>), is empty on numbers and booleans,
  lists the characters of a string and the elements of an array under their indices, and
  the own properties of an object.
\<close>

fun Object_entries :: "json \<Rightarrow> (string \<times> json) list option" where
  "Object_entries JNull = None"
| "Object_entries (JBool b) = Some []"
| "Object_entries (JNum n) = Some []"
| "Object_entries (JStr s) = Some (map (\<lambda>i. (int_digits (int i), JStr [s ! i])) [0..<length s])"
| "Object_entries (JArr xs) = Some (map (\<lambda>i. (int_digits (int i), xs ! i)) [0..<length xs])"
| "Object_entries (JObj kvs) = Some kvs"

definition entry_row :: "string \<times> json \<Rightarrow> row" where
  "entry_row e = \<lparr>key = Some (fst e), val = snd e, type = ''default''\<rparr>"

text \<open>
  The updater passed to \<^verbatim>\<open>useGraph.setState\<close>. \<open>None\<close>: \<^verbatim>\<open>Object.entries\<close> threw.
  Modelled from the spec: \<^verbatim>\<open>setState\<close> of the graph-selection store (\<^verbatim>\<open>useGraph\<close>, not
  part of this file) applies the updater to the current state at once and stores its
  result.
\<close>

definition update_selectedNode :: "json \<Rightarrow> ui_state \<Rightarrow> ui_state option" where
  "update_selectedNode parsedContent st =
     (case selectedNode st of
        None \<Rightarrow> Some st
      | Some n \<Rightarrow>
          (case Object_entries parsedContent of
             None \<Rightarrow> None
           | Some entries \<Rightarrow>
               Some (st\<lparr>selectedNode := Some (n\<lparr>node_id := node_id n, node_text := map entry_row entries\<rparr>)\<rparr>)))"

definition report_failure :: "ui_state \<Rightarrow> ui_state" where
  "report_failure st = st\<lparr>toasts := toasts st @ [Error ''Invalid JSON. Please check your input.'']\<rparr>"

definition report_success :: "ui_state \<Rightarrow> ui_state" where
  "report_success st =
     st\<lparr>toasts := toasts st @ [Success ''JSON updated successfully!''], isEditing := False\<rparr>"

text \<open>
  The statements of \<^verbatim>\<open>handleSave\<close> after the patch has returned, given the text
  \<^verbatim>\<open>JSON.stringify(updatedJson, null, 2)\<close>: the write to the document store, the rebuild of
  the rows, the success toast and the return to the viewing state; and the \<^verbatim>\<open>catch\<close>
  clause when \<^verbatim>\<open>Object.entries\<close> throws.
\<close>

definition commit_save :: "string \<Rightarrow> json \<Rightarrow> ui_state \<Rightarrow> ui_state" where
  "commit_save txt parsedContent st =
     (case update_selectedNode parsedContent (setContents txt st) of
        None \<Rightarrow> report_failure (setContents txt st)
      | Some st' \<Rightarrow> report_success st')"

text \<open>
  \<^verbatim>\<open>handleSave\<close>. \<open>JSON_parse\<close> stands for the host's \<^verbatim>\<open>JSON.parse\<close>: \<open>None\<close> is its
  \<^verbatim>\<open>SyntaxError\<close>. Every exception raised inside the \<^verbatim>\<open>try\<close> block ends in the
  \<^verbatim>\<open>catch\<close> clause. The result is \<open>None\<close> when the patch leaves the JSON values
  (\<open>Outside\<close>); what the handler does once the patch has returned is \<open>commit_save\<close>
  in every case.
\<close>

definition handleSave :: "(string \<Rightarrow> json option) \<Rightarrow> ui_state \<Rightarrow> ui_state option" where
  "handleSave JSON_parse st =
     (case JSON_parse (editedContent st) of
        None \<Rightarrow> Some (report_failure st)
      | Some parsedContent \<Rightarrow>
          (case JSON_parse (fullJson st) of
             None \<Rightarrow> Some (report_failure st)
           | Some full \<Rightarrow>
               (case updateJsonAtPath full
                       (jsonPathToString (case selectedNode st of None \<Rightarrow> None | Some n \<Rightarrow> node_path n))
                       parsedContent of
                  Outside \<Rightarrow> None
                | TypeError \<Rightarrow> Some (report_failure st)
                | Returns updatedJson \<Rightarrow>
                    Some (commit_save (JSON_stringify updatedJson) parsedContent st))))"

definition handleEditToggle :: "ui_state \<Rightarrow> ui_state" where
  "handleEditToggle st =
     (let normalizedData = normalizeNodeData (case selectedNode st of None \<Rightarrow> [] | Some n \<Rightarrow> node_text n);
          st1 = (if \<not> isEditing st then st\<lparr>editedContent := normalizedData\<rparr> else st)
      in st1\<lparr>isEditing := \<not> isEditing st\<rparr>)"

definition handleCancel :: "ui_state \<Rightarrow> ui_state" where
  "handleCancel st =
     st\<lparr>editedContent := normalizeNodeData (case selectedNode st of None \<Rightarrow> [] | Some n \<Rightarrow> node_text n),
        isEditing := False\<rparr>"

section \<open>Notions used to state the properties\<close>

text \<open>
  A segment that the text form carries faithfully: a non-negative integer, or a string
  with no double quote and no \<^verbatim>\<open>][\<close> in it.
\<close>

fun plain_segment :: "segment \<Rightarrow> bool" where
  "plain_segment (Num n) = (0 \<le> n)"
| "plain_segment (Str s) = (CHR 0x22 \<notin> set s \<and> \<not> occurs ''][''  s)"


text \<open>
  The document \<^verbatim>\<open>[1, null]\<close> with the node of its second element selected, in the
  viewing state.
\<close>

definition viewing_null_element :: ui_state where
  "viewing_null_element =
     \<lparr>selectedNode = Some \<lparr>node_id = ''2'', node_text = [\<lparr>key = None, val = JNull, type = ''null''\<rparr>],
                             node_path = Some [Num 1]\<rparr>,
      fullJson = ''[1, null]'', contents = ''[1, null]'', setContents_calls = [],
      isEditing = False, editedContent = [], toasts = []\<rparr>"

text \<open>
  The document \<^verbatim>\<open>{"n": {"a": 1}}\<close> with the node at \<^verbatim>\<open>n\<close> selected and the text
  \<^verbatim>\<open>{"a": 2, "c": {}}\<close> in the edit buffer, and a parser that knows these two texts.
\<close>

definition editing_object_node :: ui_state where
  "editing_object_node =
     \<lparr>selectedNode = Some \<lparr>node_id = ''1'', node_text = [\<lparr>key = Some ''a'', val = JNum 1, type = ''number''\<rparr>],
                             node_path = Some [Str ''n'']\<rparr>,
      fullJson = ''{\"n\": {\"a\": 1}}'', contents = ''{\"n\": {\"a\": 1}}'', setContents_calls = [],
      isEditing = True, editedContent = ''{\"a\": 2, \"c\": {}}'', toasts = []\<rparr>"

definition parse_two_texts :: "string \<Rightarrow> json option" where
  "parse_two_texts s =
     (if s = ''{\"a\": 2, \"c\": {}}'' then Some (JObj [(''a'', JNum 2), (''c'', JObj [])])
      else if s = ''{\"n\": {\"a\": 1}}'' then Some (JObj [(''n'', JObj [(''a'', JNum 1)])])
      else None)"

text \<open>
  Reading a patched document: the own property of a value under a key, and the value
  found by following a list of keys from the root.
\<close>

fun get_own :: "json \<Rightarrow> string \<Rightarrow> json option" where
  "get_own (JObj kvs) k = map_of kvs k"
| "get_own (JArr xs) k =
     (if is_array_index k \<and> digits_value k < int (length xs) then Some (xs ! array_index k) else None)"
| "get_own JNull k = None"
| "get_own (JBool b) k = None"
| "get_own (JNum n) k = None"
| "get_own (JStr s) k = None"

fun lookup_path :: "json \<Rightarrow> string list \<Rightarrow> json option" where
  "lookup_path j [] = Some j"
| "lookup_path j (k # ks) = (case get_own j k of None \<Rightarrow> None | Some child \<Rightarrow> lookup_path child ks)"

text \<open>
  Two key lists diverge when they differ at some position that both have: neither
  addresses a location on the way to, or below, the other's.
\<close>

fun diverge :: "string list \<Rightarrow> string list \<Rightarrow> bool" where
  "diverge (q # qs) (k # ks) = (q \<noteq> k \<or> diverge qs ks)"
| "diverge qs ks = False"

text \<open>
  A path segment whose number is a safe integer, so that \<open>Number\<close> and \<^verbatim>\<open>String\<close> are
  exact on it.
\<close>

fun safe_segment :: "segment \<Rightarrow> bool" where
  "safe_segment (Num n) = safe_integer n"
| "safe_segment (Str s) = True"



text \<open>The primitives other than \<^verbatim>\<open>null\<close>.\<close>

fun boxable :: "json \<Rightarrow> bool" where
  "boxable (JBool b) = True"
| "boxable (JNum n) = True"
| "boxable (JStr s) = True"
| "boxable JNull = False"
| "boxable (JArr xs) = False"
| "boxable (JObj kvs) = False"

text \<open>
  The value built under a created object by the remaining keys: one object per key, each
  holding the next under its key, the last holding the new value.
\<close>

fun nested :: "string list \<Rightarrow> json \<Rightarrow> json" where
  "nested [] v = v"
| "nested (k # ks) v = JObj [(k, nested ks v)]"

text \<open>
  Keys that a chain of new empty objects can take as own properties: none but the last
  is a name inherited from \<^verbatim>\<open>Object.prototype\<close>, and the last is not \<^verbatim>\<open>__proto__\<close>.
\<close>

definition creatable :: "string list \<Rightarrow> bool" where
  "creatable post =
     (post \<noteq> [] \<and> list_all (\<lambda>q. q \<notin> set Object_prototype_keys) (butlast post)
      \<and> last post \<noteq> ''__proto__'')"






section \<open>Properties of the path codec\<close>

lemma digit_val_char: "d < 10 \<Longrightarrow> digit_val (digit_char d) = d"
  by (simp add: digit_val_def digit_char_def)

lemma is_digit_char: "d < 10 \<Longrightarrow> is_digit (digit_char d)"
  by (simp add: is_digit_def digit_char_def)

lemma int_digits_small: "n < 10 \<Longrightarrow> int_digits n = [digit_char (nat n)]"
  by (subst int_digits.simps) simp

lemma int_digits_large:
  "\<not> n < 10 \<Longrightarrow> int_digits n = int_digits (n div 10) @ [digit_char (nat (n mod 10))]"
  by (subst int_digits.simps) simp

lemma int_digits_digits: "list_all is_digit (int_digits n)"
proof (induction n rule: int_digits.induct)
  case (1 n)
  show ?case
  proof (cases "n < 10")
    case True
    then have "nat n < 10" by simp
    with True show ?thesis by (simp add: int_digits_small is_digit_char)
  next
    case False
    have "nat (n mod 10) < 10" by simp
    with False 1 show ?thesis by (simp add: int_digits_large is_digit_char)
  qed
qed

lemma int_digits_nonempty: "int_digits n \<noteq> []"
  by (subst int_digits.simps) simp

lemma digits_value_snoc: "digits_value (ds @ [c]) = 10 * digits_value ds + int (digit_val c)"
  by (simp add: digits_value_def)

lemma digits_value_int_digits: "0 \<le> n \<Longrightarrow> digits_value (int_digits n) = n"
proof (induction n rule: int_digits.induct)
  case (1 n)
  show ?case
  proof (cases "n < 10")
    case True
    with "1.prems" have "nat n < 10" "int (nat n) = n" by simp_all
    with True show ?thesis
      by (simp add: int_digits_small digits_value_def digit_val_char)
  next
    case False
    with 1 have ih: "digits_value (int_digits (n div 10)) = n div 10" by simp
    have "nat (n mod 10) < 10" by simp
    then have "int (digit_val (digit_char (nat (n mod 10)))) = n mod 10"
      by (simp add: digit_val_char)
    with False ih show ?thesis
      by (simp add: int_digits_large digits_value_snoc)
  qed
qed

lemma is_digit_not_ws: "is_digit c \<Longrightarrow> \<not> is_ws c"
  by (auto simp: is_digit_def is_ws_def)

lemma trim_id: "s \<noteq> [] \<Longrightarrow> \<not> is_ws (hd s) \<Longrightarrow> \<not> is_ws (last s) \<Longrightarrow> trim s = s"
proof -
  assume a: "s \<noteq> []" "\<not> is_ws (hd s)" "\<not> is_ws (last s)"
  then have 1: "dropWhile is_ws s = s" by (cases s) auto
  from a have "rev s \<noteq> []" "\<not> is_ws (hd (rev s))" by (auto simp: hd_rev)
  then have 2: "dropWhile is_ws (rev s) = rev s" by (cases "rev s") auto
  show ?thesis by (simp add: trim_def 1 2)
qed

lemma is_digit_not_sign: "is_digit c \<Longrightarrow> c \<noteq> CHR ''+'' \<and> c \<noteq> CHR ''-''"
  by (auto simp: is_digit_def)

lemma Number_int_digits: "0 \<le> n \<Longrightarrow> Number (int_digits n) = IntVal n"
proof -
  assume n: "0 \<le> n"
  let ?s = "int_digits n"
  have ne: "?s \<noteq> []" by (rule int_digits_nonempty)
  have all: "list_all is_digit ?s" by (rule int_digits_digits)
  from ne all have hd: "is_digit (hd ?s)" and "is_digit (last ?s)"
    by (auto simp: list_all_iff)
  then have t: "trim ?s = ?s" using ne by (intro trim_id) (auto dest: is_digit_not_ws)
  have s: "strip_sign ?s = ?s" using is_digit_not_sign [OF hd] by (simp add: strip_sign_def)
  show ?thesis using ne all n is_digit_not_sign [OF hd]
    by (simp add: Number_def t s is_digits_def digits_value_int_digits)
qed

lemma Number_quoted: "Number (CHR 0x22 # s @ [CHR 0x22]) = NaN"
proof -
  let ?q = "CHR 0x22 # s @ [CHR 0x22]"
  have t: "trim ?q = ?q" by (rule trim_id) (simp_all add: is_ws_def)
  have s: "strip_sign ?q = ?q" by (simp add: strip_sign_def)
  have d: "\<not> is_digit (CHR 0x22)" by (simp add: is_digit_def)
  have 1: "\<not> is_digits ?q" using d by (simp add: is_digits_def)
  have 2: "\<not> unsigned_decimal ?q" using d by (simp add: unsigned_decimal_def)
  have 3: "\<not> non_decimal ?q" by (simp add: non_decimal_def split: list.splits)
  show ?thesis using 1 2 3 by (simp add: Number_def t s)
qed

lemma parse_segment_text: "plain_segment seg \<Longrightarrow> parse_segment (segment_text seg) = Some seg"
proof (cases seg)
  case (Num n)
  assume "plain_segment seg"
  with Num show ?thesis
    by (simp add: parse_segment_def segment_text_def int_to_string_def Number_int_digits)
next
  case (Str s)
  assume "plain_segment seg"
  with Str have "filter (\<lambda>c. c \<noteq> CHR 0x22) s = s" by (auto simp: filter_id_conv)
  with Str show ?thesis
    using Number_quoted [of s] by (simp add: parse_segment_def segment_text_def)
qed


lemma split_from_piece:
  "\<not> occurs ''][''  a \<Longrightarrow>
   split_from ''][''  acc (a @ ''][''  @ rest) = (rev acc @ a) # split_from ''][''  [] rest"
proof (induction a arbitrary: acc)
  case Nil
  then show ?case by (simp add: startsWith_def)
next
  case (Cons c cs)
  then have no: "\<not> startsWith (c # cs) ''][''" and rec: "\<not> occurs ''][''  cs" by simp_all
  have "\<not> startsWith (c # cs @ ''][''  @ rest) ''][''"
    using no by (cases cs) (auto simp: startsWith_def)
  then show ?case using Cons.IH [OF rec, of "c # acc"] by simp
qed

lemma split_from_last:
  "\<not> occurs ''][''  a \<Longrightarrow> split_from ''][''  acc a = [rev acc @ a]"
proof (induction a arbitrary: acc)
  case Nil
  then show ?case by simp
next
  case (Cons c cs)
  then show ?case by simp
qed

lemma split_join:
  "xs \<noteq> [] \<Longrightarrow> \<forall>x\<in>set xs. \<not> occurs ''][''  x \<Longrightarrow> split ''][''  (join ''][''  xs) = xs"
proof (induction "''][''" xs rule: join.induct)
  case 1
  then show ?case by simp
next
  case (2 x)
  then show ?case by (simp add: split_def split_from_last)
next
  case (3 x y ys)
  then have "split_from ''][''  [] (join ''][''  (y # ys)) = y # ys" by (simp add: split_def)
  moreover from 3 have "\<not> occurs ''][''  x" by simp
  ultimately show ?case
    using split_from_piece [of x "[]" "join ''][''  (y # ys)"] by (simp add: split_def)
qed

lemma no_bracket_no_occurs: "CHR '']'' \<notin> set a \<Longrightarrow> \<not> occurs ''][''  a"
  by (induction a) (auto simp: startsWith_def)

lemma occurs_snoc_quote: "occurs ''][''  (s @ [CHR 0x22]) = occurs ''][''  s"
proof (induction s)
  case Nil
  then show ?case by (simp add: startsWith_def)
next
  case (Cons c cs)
  have "startsWith (c # cs @ [CHR 0x22]) ''][''  = startsWith (c # cs) ''][''"
    by (cases cs) (auto simp: startsWith_def)
  with Cons show ?case by simp
qed

lemma is_digit_not_bracket: "is_digit c \<Longrightarrow> c \<noteq> CHR '']''"
  by (auto simp: is_digit_def)

lemma segment_text_no_sep: "plain_segment seg \<Longrightarrow> \<not> occurs ''][''  (segment_text seg)"
proof (cases seg)
  case (Num n)
  assume "plain_segment seg"
  have "CHR '']'' \<notin> set (int_digits n)"
    using int_digits_digits [of n] by (auto simp: list_all_iff dest: is_digit_not_bracket)
  with Num \<open>plain_segment seg\<close> show ?thesis
    by (simp add: segment_text_def int_to_string_def no_bracket_no_occurs)
next
  case (Str s)
  assume "plain_segment seg"
  with Str show ?thesis
    by (simp add: segment_text_def occurs_snoc_quote startsWith_def)
qed

lemma strip_brackets_wrapped: "strip_brackets (CHR ''$'' # CHR ''['' # body @ '']'') = body"
  by (simp add: strip_brackets_def startsWith_def)

lemma sequence_options_map:
  "\<forall>x\<in>set xs. f (g x) = Some x \<Longrightarrow> sequence_options (map (f \<circ> g) xs) = Some xs"
  by (induction xs) auto

text \<open>
  C1 (as amended). For every non-empty structural path whose segments are non-negative
  integers or strings containing neither a double quote nor the text \<^verbatim>\<open>][\<close>, parsing
  the text that \<^verbatim>\<open>jsonPathToString\<close> produces, the way \<^verbatim>\<open>updateJsonAtPath\<close> parses it,
  gives the path back.
\<close>

theorem path_round_trip:
  assumes "p \<noteq> []" and "\<forall>seg\<in>set p. plain_segment seg"
  shows "pathSegments (jsonPathToString (Some p)) = Some p"
proof -
  let ?pieces = "map segment_text p"
  have "split ''][''  (join ''][''  ?pieces) = ?pieces"
    using assms by (intro split_join) (auto simp: segment_text_no_sep)
  then have "pathSegments (jsonPathToString (Some p)) = sequence_options (map (parse_segment \<circ> segment_text) p)"
    using assms(1) by (simp add: pathSegments_def jsonPathToString_def strip_brackets_wrapped)
  also have "\<dots> = Some p"
    using assms(2) by (intro sequence_options_map) (simp add: parse_segment_text)
  finally show ?thesis .
qed

theorem path_round_trip_witness:
  "plain_segment (Str ''a'') \<and> plain_segment (Num 3)
   \<and> pathSegments (jsonPathToString (Some [Str ''a'', Num 3])) = Some [Str ''a'', Num 3]"
proof -
  have h: "\<forall>seg\<in>set [Str ''a'', Num 3]. plain_segment seg" by (simp add: startsWith_def)
  show ?thesis using h path_round_trip [of "[Str ''a'', Num 3]"] by simp
qed

text \<open>
  C1 as stated fails: a string segment that contains a double quote loses it, since the
  parser deletes every double quote of a piece.
\<close>

theorem path_round_trip_counterexample:
  "pathSegments (jsonPathToString (Some [Str ''a\"b''])) \<noteq> Some [Str ''a\"b'']"
  by code_simp

section \<open>Properties of \<^verbatim>\<open>updateJsonAtPath\<close>\<close>

text \<open>
  C2. The claim says that patching at the root path text \<^verbatim>\<open>$\<close> returns the document
  unchanged. The code does not: the guard tests for the empty text only, the text
  \<^verbatim>\<open>$\<close> parses to the single string segment \<^verbatim>\<open>$\<close>, and the empty object comes back
  with the new value stored under the key \<^verbatim>\<open>$\<close>.
\<close>

theorem root_path_adds_dollar_key:
  "updateJsonAtPath (JObj []) (jsonPathToString (Some [])) v = Returns (JObj [(''$'', v)])
   \<and> updateJsonAtPath (JObj []) ''$'' v \<noteq> Returns (JObj [])"
  by code_simp

subsection \<open>Reading the patched document\<close>

lemma digit_char_val: "is_digit c \<Longrightarrow> digit_char (digit_val c) = c"
  by (simp add: digit_val_def digit_char_def is_digit_def)

lemma digit_val_less: "is_digit c \<Longrightarrow> digit_val c < 10"
  by (auto simp: digit_val_def is_digit_def)

lemma digit_val_zero: "is_digit c \<Longrightarrow> digit_val c = 0 \<Longrightarrow> c = CHR ''0''"
proof -
  assume "is_digit c" "digit_val c = 0"
  then have "(of_char c :: nat) = of_char (CHR ''0'')" by (simp add: is_digit_def digit_val_def)
  then show ?thesis by (simp only: of_char_eq_iff)
qed

lemma digits_value_nonneg: "0 \<le> digits_value ds"
  by (induction ds rule: rev_induct) (simp_all add: digits_value_snoc, simp add: digits_value_def)

lemma array_index_less: "digits_value k < int (length xs) \<Longrightarrow> array_index k < length xs"
  using digits_value_nonneg [of k] by (simp add: array_index_def)

lemma array_index_eq: "digits_value k = int (length xs) \<Longrightarrow> array_index k = length xs"
  by (simp add: array_index_def)

text \<open>A digit string without a leading zero is the decimal text of its value.\<close>

lemma canonical_text:
  "ds \<noteq> [] \<Longrightarrow> list_all is_digit ds \<Longrightarrow> ds = ''0'' \<or> hd ds \<noteq> CHR ''0'' \<Longrightarrow>
   int_digits (digits_value ds) = ds \<and> (ds \<noteq> ''0'' \<longrightarrow> 0 < digits_value ds)"
proof (induction ds rule: rev_induct)
  case Nil
  then show ?case by simp
next
  case (snoc c ds)
  from snoc.prems have c: "is_digit c" by simp
  have d: "int (digit_val c) < 10" "0 \<le> int (digit_val c)" using digit_val_less [OF c] by simp_all
  show ?case
  proof (cases "ds = []")
    case True
    have "int_digits (int (digit_val c)) = [c]"
      using c d by (simp add: int_digits_small digit_char_val)
    moreover have "[c] \<noteq> ''0'' \<longrightarrow> 0 < digit_val c"
      using digit_val_zero [OF c] by auto
    ultimately show ?thesis using True by (simp add: digits_value_def)
  next
    case False
    with snoc.prems have hd: "hd ds \<noteq> CHR ''0''" and all: "list_all is_digit ds"
      by (auto simp: hd_append)
    have ne0: "ds \<noteq> ''0''" using hd by auto
    have canon: "ds = ''0'' \<or> hd ds \<noteq> CHR ''0''" using hd by simp
    note IH = snoc.IH [OF False all canon]
    from IH have ih: "int_digits (digits_value ds) = ds" by (rule conjunct1)
    from IH ne0 have pos: "0 < digits_value ds" by blast
    let ?n = "10 * digits_value ds + int (digit_val c)"
    have big: "\<not> ?n < 10" using pos d by simp
    have dv: "?n div 10 = digits_value ds" using d by simp
    have md: "?n mod 10 = int (digit_val c)" using d by simp
    have "int_digits ?n = ds @ [c]"
      by (simp only: int_digits_large [OF big] dv md ih nat_int digit_char_val [OF c])
    then show ?thesis using pos d by (simp add: digits_value_snoc)
  qed
qed

lemma array_index_text: "is_array_index k \<Longrightarrow> int_digits (digits_value k) = k"
  using canonical_text [of k] by (auto simp: is_array_index_def is_digits_def)

lemma array_index_inj:
  "is_array_index k \<Longrightarrow> is_array_index k' \<Longrightarrow> digits_value k = digits_value k' \<Longrightarrow> k = k'"
  by (metis array_index_text)

lemma map_of_obj_set_same: "map_of (obj_set k v kvs) k = Some v"
proof -
  have 1: "k \<in> fst ` set kvs \<Longrightarrow> map_of (map (\<lambda>kv. if fst kv = k then (k, v) else kv) kvs) k = Some v"
    by (induction kvs) auto
  have 2: "k \<notin> fst ` set kvs \<Longrightarrow> map_of (takeWhile P kvs) k = None" for P
    by (auto simp: map_of_eq_None_iff dest: set_takeWhileD)
  have 3: "k \<notin> fst ` set kvs \<Longrightarrow> map_of kvs k = None"
    by (simp add: map_of_eq_None_iff)
  show ?thesis
    using 1 2 3 by (simp add: obj_set_def map_add_def)
qed

lemma map_of_takeWhile_dropWhile:
  "k' \<noteq> fst kv \<Longrightarrow> map_of (takeWhile P kvs @ kv # dropWhile P kvs) k' = map_of kvs k'"
  by (induction kvs) (auto split: prod.splits)

lemma map_of_obj_set_other: "k' \<noteq> k \<Longrightarrow> map_of (obj_set k v kvs) k' = map_of kvs k'"
proof -
  assume ne: "k' \<noteq> k"
  have 1: "map_of (map (\<lambda>kv. if fst kv = k then (k, v) else kv) kvs) k' = map_of kvs k'"
    using ne by (induction kvs) auto
  have 2: "map_of (takeWhile P kvs @ (k, v) # dropWhile P kvs) k' = map_of kvs k'" for P
    using ne map_of_takeWhile_dropWhile [of k' "(k, v)" P kvs] by simp
  have 3: "map_of (kvs @ [(k, v)]) k' = map_of kvs k'"
    using ne by (simp add: map_add_def split: option.splits)
  show ?thesis using 1 2 3 by (simp add: obj_set_def)
qed

lemma set_property_get: "set_property cur k c = Returns r \<Longrightarrow> get_own r k = Some c"
  by (cases cur)
    (auto simp: map_of_obj_set_same nth_append array_index_less array_index_eq split: if_splits)

lemma set_property_other:
  "set_property cur k c = Returns r \<Longrightarrow> k' \<noteq> k \<Longrightarrow> get_own r k' = get_own cur k'"
proof (cases cur)
  case (JArr xs)
  assume eq: "set_property cur k c = Returns r" and ne: "k' \<noteq> k"
  from eq JArr have ik: "is_array_index k" by (auto split: if_splits)
  have diff: "is_array_index k' \<Longrightarrow> digits_value k' \<noteq> digits_value k"
    using ne ik array_index_inj by blast
  then have diff': "is_array_index k' \<Longrightarrow> array_index k' \<noteq> array_index k"
    using digits_value_nonneg [of k] digits_value_nonneg [of k'] by (simp add: array_index_def)
  from eq JArr diff diff' show ?thesis
    by (auto simp: nth_append array_index_less array_index_eq split: if_splits)
next
  case (JObj kvs)
  assume "set_property cur k c = Returns r" "k' \<noteq> k"
  with JObj show ?thesis by (auto simp: map_of_obj_set_other split: if_splits)
qed (auto split: if_splits)

lemma lookup_path_empty_object: "qs \<noteq> [] \<Longrightarrow> lookup_path (JObj []) qs = None"
  by (cases qs) auto

lemma lookup_path_falsy: "\<not> truthy e \<Longrightarrow> qs \<noteq> [] \<Longrightarrow> lookup_path e qs = None"
  by (cases qs; cases e) auto

lemma vivify_lookup:
  assumes "vivify cur k = Returns child" and "qs \<noteq> []"
  shows "lookup_path child qs = lookup_path cur (k # qs)"
proof (cases cur)
  case (JArr xs)
  with assms show ?thesis
    by (auto simp: lookup_path_empty_object lookup_path_falsy split: if_splits)
next
  case (JObj kvs)
  with assms show ?thesis
    by (auto simp: lookup_path_empty_object lookup_path_falsy split: if_splits option.splits)
qed (use assms in \<open>auto split: if_splits\<close>)

lemma assign_path_lookup:
  "assign_path cur ks v = Returns r \<Longrightarrow> ks \<noteq> [] \<Longrightarrow> lookup_path r ks = Some v"
proof (induction cur ks v arbitrary: r rule: assign_path.induct)
  case (1 current newValue)
  then show ?case by simp
next
  case (2 current k newValue)
  then show ?case by (simp add: set_property_get)
next
  case (3 current k k' ks newValue)
  from "3.prems"(1) obtain child child' where
    v: "vivify current k = Returns child"
    and a: "assign_path child (k' # ks) newValue = Returns child'"
    and s: "set_property current k child' = Returns r"
    by (auto split: outcome.splits)
  from "3.IH" [OF v a] have "lookup_path child' (k' # ks) = Some newValue" by simp
  with set_property_get [OF s] show ?case by simp
qed

lemma diverge_nonempty: "diverge qs ks \<Longrightarrow> qs \<noteq> []"
  by (cases qs) auto

lemma assign_path_frame:
  "assign_path cur ks v = Returns r \<Longrightarrow> diverge qs ks \<Longrightarrow> lookup_path r qs = lookup_path cur qs"
proof (induction cur ks v arbitrary: r qs rule: assign_path.induct)
  case (1 current newValue)
  then show ?case by simp
next
  case (2 current k newValue)
  then obtain q qs' where qs: "qs = q # qs'" and ne: "q \<noteq> k" by (cases qs) auto
  from "2.prems"(1) have s: "set_property current k newValue = Returns r" by simp
  from set_property_other [OF s ne] qs show ?case by simp
next
  case (3 current k k' ks newValue)
  from "3.prems"(1) obtain child child' where
    v: "vivify current k = Returns child"
    and a: "assign_path child (k' # ks) newValue = Returns child'"
    and s: "set_property current k child' = Returns r"
    by (auto split: outcome.splits)
  from "3.prems"(2) obtain q qs' where qs: "qs = q # qs'" by (cases qs) auto
  show ?case
  proof (cases "q = k")
    case False
    with set_property_other [OF s False] qs show ?thesis by simp
  next
    case True
    with "3.prems"(2) qs have d: "diverge qs' (k' # ks)" by simp
    from "3.IH" [OF v a d] have "lookup_path child' qs' = lookup_path child qs'" .
    also have "\<dots> = lookup_path current (k # qs')"
      using v diverge_nonempty [OF d] by (rule vivify_lookup)
    finally show ?thesis using set_property_get [OF s] qs True by simp
  qed
qed

lemma split_from_nonempty: "split_from sep acc s \<noteq> []"
  by (induction sep acc s rule: split_from.induct) auto

lemma sequence_options_length: "sequence_options xs = Some ys \<Longrightarrow> length ys = length xs"
  by (induction xs arbitrary: ys) (auto split: option.splits)

lemma pathSegments_nonempty: "pathSegments path = Some segs \<Longrightarrow> segs \<noteq> []"
  using split_from_nonempty [of "''][''" "[]" "strip_brackets path"]
  by (auto simp: pathSegments_def split_def dest!: sequence_options_length)

subsection \<open>Walking down the document\<close>

lemma get_own_container: "get_own c k = Some x \<Longrightarrow> truthy c \<and> \<not> boxable c"
  by (cases c) auto

lemma lookup_path_append:
  "lookup_path c (pre @ qs) = (case lookup_path c pre of None \<Rightarrow> None | Some p \<Rightarrow> lookup_path p qs)"
  by (induction pre arbitrary: c) (auto split: option.splits)

lemma lookup_path_truthy: "lookup_path c qs = Some p \<Longrightarrow> truthy p \<Longrightarrow> truthy c"
  by (cases qs) (auto split: option.splits dest: get_own_container)

lemma vivify_existing: "get_own cur q = Some child \<Longrightarrow> truthy child \<Longrightarrow> vivify cur q = Returns child"
  by (cases cur) (auto split: if_splits)

lemma vivify_falsy: "get_own cur q = Some e \<Longrightarrow> \<not> truthy e \<Longrightarrow> vivify cur q = Returns (JObj [])"
  by (cases cur) (auto split: if_splits)


lemma set_property_existing: "get_own cur q = Some old \<Longrightarrow> \<exists>r. set_property cur q c = Returns r"
  by (cases cur) (auto split: if_splits dest: map_of_SomeD intro: rev_image_eqI)


lemma set_property_boxable:
  "boxable cur \<Longrightarrow> q \<noteq> ''__proto__'' \<Longrightarrow> set_property cur q c = TypeError"
  by (cases cur) auto


lemma assign_path_Cons:
  "rest \<noteq> [] \<Longrightarrow> assign_path cur (q # rest) v =
     (case vivify cur q of
        Returns child \<Rightarrow>
          (case assign_path child rest v of
             Returns child' \<Rightarrow> set_property cur q child'
           | TypeError \<Rightarrow> TypeError
           | Outside \<Rightarrow> Outside)
      | TypeError \<Rightarrow> TypeError
      | Outside \<Rightarrow> Outside)"
  by (cases rest) auto

text \<open>
  Walking down existing containers: the patch below a located parent decides the patch
  of the whole document.
\<close>

lemma assign_path_walk:
  assumes "lookup_path doc pre = Some parent" and "truthy parent" and "rest \<noteq> []"
  shows "(\<forall>p'. assign_path parent rest v = Returns p' \<longrightarrow>
            (\<exists>r. assign_path doc (pre @ rest) v = Returns r \<and> lookup_path r pre = Some p'))
       \<and> (assign_path parent rest v = TypeError \<longrightarrow> assign_path doc (pre @ rest) v = TypeError)
       \<and> (assign_path parent rest v = Outside \<longrightarrow> assign_path doc (pre @ rest) v = Outside)"
  using assms
proof (induction pre arbitrary: doc)
  case Nil
  then show ?case by simp
next
  case (Cons q pre)
  from Cons.prems(1) obtain child where g: "get_own doc q = Some child"
    and l: "lookup_path child pre = Some parent" by (auto split: option.splits)
  have tc: "truthy child" using l Cons.prems(2) by (rule lookup_path_truthy)
  have v: "vivify doc q = Returns child" using g tc by (rule vivify_existing)
  have ne: "pre @ rest \<noteq> []" using Cons.prems(3) by simp
  note IH = Cons.IH [OF l Cons.prems(2,3)]
  have eq: "assign_path doc ((q # pre) @ rest) v =
      (case assign_path child (pre @ rest) v of
         Returns child' \<Rightarrow> set_property doc q child'
       | TypeError \<Rightarrow> TypeError
       | Outside \<Rightarrow> Outside)"
    using assign_path_Cons [OF ne, of doc q v] v by simp
  show ?case
  proof (intro conjI allI impI)
    fix p' assume "assign_path parent rest v = Returns p'"
    with IH obtain rc where rc: "assign_path child (pre @ rest) v = Returns rc"
      and lc: "lookup_path rc pre = Some p'" by blast
    from set_property_existing [OF g] obtain r where r: "set_property doc q rc = Returns r" by blast
    from set_property_get [OF r] lc have "lookup_path r (q # pre) = Some p'" by simp
    with eq rc r show "\<exists>r. assign_path doc ((q # pre) @ rest) v = Returns r
        \<and> lookup_path r (q # pre) = Some p'" by simp
  next
    assume "assign_path parent rest v = TypeError"
    with IH eq show "assign_path doc ((q # pre) @ rest) v = TypeError" by simp
  next
    assume "assign_path parent rest v = Outside"
    with IH eq show "assign_path doc ((q # pre) @ rest) v = Outside" by simp
  qed
qed

lemma assign_path_walk_back:
  assumes "lookup_path doc pre = Some parent" and "truthy parent" and "rest \<noteq> []"
    and "assign_path doc (pre @ rest) v = Returns r"
  shows "\<exists>p'. assign_path parent rest v = Returns p' \<and> lookup_path r pre = Some p'"
proof (cases "assign_path parent rest v")
  case (Returns p')
  with assign_path_walk [OF assms(1-3), of v] assms(4) show ?thesis by auto
next
  case TypeError
  with assign_path_walk [OF assms(1-3), of v] assms(4) show ?thesis by simp
next
  case Outside
  with assign_path_walk [OF assms(1-3), of v] assms(4) show ?thesis by simp
qed

lemma proto_key: "q \<notin> set Object_prototype_keys \<Longrightarrow> q \<noteq> ''__proto__''"
  by (auto simp: Object_prototype_keys_def)

lemma creatable_Cons:
  "creatable (q # q' # qs) = (q \<notin> set Object_prototype_keys \<and> creatable (q' # qs))"
  by (simp add: creatable_def)

lemma creatable_single: "creatable [q] = (q \<noteq> ''__proto__'')"
  by (simp add: creatable_def)

lemma assign_path_create: "creatable post \<Longrightarrow> assign_path (JObj []) post v = Returns (nested post v)"
proof (induction post)
  case Nil
  then show ?case by (simp add: creatable_def)
next
  case (Cons q post)
  show ?case
  proof (cases post)
    case Nil
    with Cons.prems show ?thesis by (simp add: creatable_single obj_set_def)
  next
    case (Cons q' qs)
    with Cons.prems have q: "q \<notin> set Object_prototype_keys" and c: "creatable post"
      by (simp_all add: creatable_Cons)
    from Cons.IH [OF c] q proto_key [OF q] Cons show ?thesis by (simp add: obj_set_def)
  qed
qed

lemma assign_path_created:
  "assign_path (JObj []) post v = Returns c \<Longrightarrow> post \<noteq> [] \<Longrightarrow> c = nested post v \<and> creatable post"
proof (induction post arbitrary: c)
  case Nil
  then show ?case by simp
next
  case (Cons q post)
  show ?case
  proof (cases post)
    case Nil
    with Cons.prems show ?thesis
      by (auto simp: creatable_single obj_set_def split: if_splits)
  next
    case (Cons q' qs)
    with Cons.prems(1) have q: "q \<notin> set Object_prototype_keys"
      by (auto split: if_splits outcome.splits)
    with Cons.prems(1) Cons obtain c' where a: "assign_path (JObj []) post v = Returns c'"
      and s: "set_property (JObj []) q c' = Returns c"
      by (auto split: outcome.splits)
    from Cons.IH [OF a] Cons have "c' = nested post v" "creatable post" by simp_all
    with s q proto_key [OF q] Cons show ?thesis
      by (auto simp: creatable_Cons obj_set_def)
  qed
qed

text \<open>What the patch does at a slot where the loop moves to a new empty object.\<close>

lemma assign_path_below_new:
  assumes v: "vivify parent k = Returns (JObj [])" and post: "post \<noteq> []"
    and s: "\<And>c. \<exists>p'. set_property parent k c = Returns p'"
  shows "(\<forall>p'. assign_path parent (k # post) newValue = Returns p' \<longrightarrow>
            lookup_path p' [k] = Some (nested post newValue))
       \<and> (creatable post \<longrightarrow> (\<exists>p'. assign_path parent (k # post) newValue = Returns p'))"
proof (intro conjI allI impI)
  fix p' assume "assign_path parent (k # post) newValue = Returns p'"
  with assign_path_Cons [OF post, of parent k newValue] v
  obtain c where a: "assign_path (JObj []) post newValue = Returns c"
    and sp: "set_property parent k c = Returns p'" by (auto split: outcome.splits)
  from assign_path_created [OF a post] set_property_get [OF sp]
  show "lookup_path p' [k] = Some (nested post newValue)" by simp
next
  assume "creatable post"
  from assign_path_create [OF this, of newValue] s [of "nested post newValue"]
    assign_path_Cons [OF post, of parent k newValue] v
  show "\<exists>p'. assign_path parent (k # post) newValue = Returns p'" by auto
qed


lemma updateJsonAtPath_segments:
  "path \<noteq> [] \<Longrightarrow> pathSegments path = Some segs \<Longrightarrow>
   updateJsonAtPath doc path v = assign_path doc (map property_key segs) v"
  by (simp add: updateJsonAtPath_def clone_def)


text \<open>
  C6. For a non-empty path text whose numeric pieces are safe integers: whenever
  \<^verbatim>\<open>updateJsonAtPath\<close> returns, the value found in the result under the path's keys is the
  new value, and the value found under any diverging key list is the one the document
  had; and when the document has a value at the path, the call does return, whatever that
  value and its children are and whatever the new value is. In particular
  \<^verbatim>\<open>{"a": {"b": 1}}\<close> patched at \<^verbatim>\<open>$["a"]["b"]\<close> with \<^verbatim>\<open>2\<close> is \<^verbatim>\<open>{"a": {"b": 2}}\<close>.
\<close>

theorem patch_replaces_subtree:
  assumes "path \<noteq> []" and "pathSegments path = Some segs" and "list_all safe_segment segs"
  shows "(\<forall>r. updateJsonAtPath doc path v = Returns r \<longrightarrow>
            lookup_path r (map property_key segs) = Some v
            \<and> (\<forall>qs. diverge qs (map property_key segs) \<longrightarrow> lookup_path r qs = lookup_path doc qs))
     \<and> (\<forall>old. lookup_path doc (map property_key segs) = Some old \<longrightarrow>
            (\<exists>r. updateJsonAtPath doc path v = Returns r))
     \<and> updateJsonAtPath (JObj [(''a'', JObj [(''b'', JNum 1)])]) ''$[\"a\"][\"b\"]'' (JNum 2)
         = Returns (JObj [(''a'', JObj [(''b'', JNum 2)])])"
proof -
  let ?ks = "map property_key segs"
  have u: "updateJsonAtPath doc path v = assign_path doc ?ks v"
    using assms(1,2) by (rule updateJsonAtPath_segments)
  have ne: "?ks \<noteq> []" using pathSegments_nonempty [OF assms(2)] by simp
  have 1: "\<forall>r. updateJsonAtPath doc path v = Returns r \<longrightarrow>
            lookup_path r ?ks = Some v
            \<and> (\<forall>qs. diverge qs ?ks \<longrightarrow> lookup_path r qs = lookup_path doc qs)"
    using assign_path_lookup [OF _ ne] assign_path_frame unfolding u by blast
  have 2: "\<forall>old. lookup_path doc ?ks = Some old \<longrightarrow> (\<exists>r. updateJsonAtPath doc path v = Returns r)"
  proof (intro allI impI)
    fix old assume l: "lookup_path doc ?ks = Some old"
    from ne have split: "?ks = butlast ?ks @ [last ?ks]" by simp
    from l obtain parent where p: "lookup_path doc (butlast ?ks) = Some parent"
      and g: "get_own parent (last ?ks) = Some old"
      by (subst (asm) split) (auto simp: lookup_path_append split: option.splits)
    from get_own_container [OF g] have t: "truthy parent" by simp
    from set_property_existing [OF g] obtain p' where
      "assign_path parent [last ?ks] v = Returns p'" by auto
    with assign_path_walk [OF p t, of "[last ?ks]" v] split
    show "\<exists>r. updateJsonAtPath doc path v = Returns r" unfolding u by auto
  qed
  have 3: "updateJsonAtPath (JObj [(''a'', JObj [(''b'', JNum 1)])]) ''$[\"a\"][\"b\"]'' (JNum 2)
         = Returns (JObj [(''a'', JObj [(''b'', JNum 2)])])"
    by code_simp
  from 1 2 3 show ?thesis by blast
qed

theorem patch_replaces_subtree_witness:
  "''$[\"a\"][\"b\"]'' \<noteq> []
   \<and> pathSegments ''$[\"a\"][\"b\"]'' = Some [Str ''a'', Str ''b'']
   \<and> list_all safe_segment [Str ''a'', Str ''b'']
   \<and> lookup_path (JObj [(''a'', JObj [(''b'', JArr [JNum 1])]), (''c'', JNum 3)]) [''a'', ''b'']
       = Some (JArr [JNum 1])
   \<and> updateJsonAtPath (JObj [(''a'', JObj [(''b'', JArr [JNum 1])]), (''c'', JNum 3)])
         ''$[\"a\"][\"b\"]'' (JStr ''new'')
       = Returns (JObj [(''a'', JObj [(''b'', JStr ''new'')]), (''c'', JNum 3)])
   \<and> lookup_path (JObj [(''a'', JObj [(''b'', JStr ''new'')]), (''c'', JNum 3)]) [''a'', ''b'']
       = Some (JStr ''new'')
   \<and> lookup_path (JObj [(''a'', JObj [(''b'', JStr ''new'')]), (''c'', JNum 3)]) [''c'']
       = lookup_path (JObj [(''a'', JObj [(''b'', JArr [JNum 1])]), (''c'', JNum 3)]) [''c'']"
proof -
  have p: "''$[\"a\"][\"b\"]'' \<noteq> []" by simp
  have s: "pathSegments ''$[\"a\"][\"b\"]'' = Some [Str ''a'', Str ''b'']" by code_simp
  have l: "list_all safe_segment [Str ''a'', Str ''b'']" by simp
  have u: "updateJsonAtPath (JObj [(''a'', JObj [(''b'', JArr [JNum 1])]), (''c'', JNum 3)])
         ''$[\"a\"][\"b\"]'' (JStr ''new'')
       = Returns (JObj [(''a'', JObj [(''b'', JStr ''new'')]), (''c'', JNum 3)])" by code_simp
  have d: "diverge [''c''] (map property_key [Str ''a'', Str ''b''])"
    by (simp add: property_key_def)
  from patch_replaces_subtree [OF p s l,
      of "JObj [(''a'', JObj [(''b'', JArr [JNum 1])]), (''c'', JNum 3)]" "JStr ''new''"]
    d p s l u show ?thesis
    by (simp add: property_key_def)
qed




text \<open>
  C9. Auto-vivification tests falsiness. Let the walk have reached \<open>parent\<close> along
  existing keys and let \<open>parent\<close>, an object or an array, hold the value \<open>e\<close> under the
  next, intermediate segment \<open>k\<close>. If \<open>e\<close> is falsy, that is \<^verbatim>\<open>null\<close>, \<^verbatim>\<open>false\<close>, \<^verbatim>\<open>0\<close> or
  the empty string, the loop moves to a new empty object and stores it under \<open>k\<close> in
  place of \<open>e\<close>: if the call returns, the result holds under \<open>k\<close> the chain of new objects
  for the remaining keys, and it returns under the condition on those keys given for C7.
  If \<open>e\<close> is truthy, the loop moves to \<open>e\<close> itself. In particular \<^verbatim>\<open>{"a": 0}\<close> patched at
  \<^verbatim>\<open>$["a"]["b"]\<close> with \<^verbatim>\<open>1\<close> is \<^verbatim>\<open>{"a": {"b": 1}}\<close>.
\<close>

theorem falsy_intermediate_replaced:
  assumes "path \<noteq> []" and "pathSegments path = Some segs" and "list_all safe_segment segs"
    and "map property_key segs = pre @ k # post" and "post \<noteq> []"
    and "lookup_path doc pre = Some parent" and "get_own parent k = Some e"
  shows "(\<not> truthy e \<longrightarrow>
            vivify parent k = Returns (JObj [])
            \<and> (\<forall>r. updateJsonAtPath doc path v = Returns r \<longrightarrow>
                   lookup_path r (pre @ [k]) = Some (nested post v))
            \<and> (creatable post \<longrightarrow> (\<exists>r. updateJsonAtPath doc path v = Returns r)))
     \<and> (truthy e \<longrightarrow> vivify parent k = Returns e)
     \<and> (\<not> truthy e) = (e = JNull \<or> e = JBool False \<or> e = JNum 0 \<or> e = JStr [])
     \<and> updateJsonAtPath (JObj [(''a'', JNum 0)]) ''$[\"a\"][\"b\"]'' (JNum 1)
         = Returns (JObj [(''a'', JObj [(''b'', JNum 1)])])"
proof -
  have u: "updateJsonAtPath doc path v = assign_path doc (pre @ k # post) v"
    using updateJsonAtPath_segments [OF assms(1,2)] assms(4) by simp
  have t: "truthy parent" using get_own_container [OF assms(7)] by simp
  have 1: "\<not> truthy e \<longrightarrow>
            vivify parent k = Returns (JObj [])
            \<and> (\<forall>r. updateJsonAtPath doc path v = Returns r \<longrightarrow>
                   lookup_path r (pre @ [k]) = Some (nested post v))
            \<and> (creatable post \<longrightarrow> (\<exists>r. updateJsonAtPath doc path v = Returns r))"
  proof
    assume f: "\<not> truthy e"
    have vv: "vivify parent k = Returns (JObj [])" using assms(7) f by (rule vivify_falsy)
    note below = assign_path_below_new [OF vv assms(5) set_property_existing [OF assms(7)], of v]
    have r1: "\<forall>r. updateJsonAtPath doc path v = Returns r \<longrightarrow>
                   lookup_path r (pre @ [k]) = Some (nested post v)"
    proof (intro allI impI)
      fix r assume "updateJsonAtPath doc path v = Returns r"
      with u have "assign_path doc (pre @ k # post) v = Returns r" by simp
      from assign_path_walk_back [OF assms(6) t _ this]
      obtain p' where "assign_path parent (k # post) v = Returns p'"
        and "lookup_path r pre = Some p'" by auto
      with below show "lookup_path r (pre @ [k]) = Some (nested post v)"
        by (simp add: lookup_path_append)
    qed
    have r2: "creatable post \<longrightarrow> (\<exists>r. updateJsonAtPath doc path v = Returns r)"
    proof
      assume "creatable post"
      with below obtain p' where "assign_path parent (k # post) v = Returns p'" by blast
      with assign_path_walk [OF assms(6) t, of "k # post" v]
      show "\<exists>r. updateJsonAtPath doc path v = Returns r" unfolding u by auto
    qed
    from vv r1 r2 show "vivify parent k = Returns (JObj [])
            \<and> (\<forall>r. updateJsonAtPath doc path v = Returns r \<longrightarrow>
                   lookup_path r (pre @ [k]) = Some (nested post v))
            \<and> (creatable post \<longrightarrow> (\<exists>r. updateJsonAtPath doc path v = Returns r))" by blast
  qed
  have 2: "truthy e \<longrightarrow> vivify parent k = Returns e"
    using vivify_existing [OF assms(7)] by blast
  have 3: "(\<not> truthy e) = (e = JNull \<or> e = JBool False \<or> e = JNum 0 \<or> e = JStr [])"
    by (cases e) auto
  have 4: "updateJsonAtPath (JObj [(''a'', JNum 0)]) ''$[\"a\"][\"b\"]'' (JNum 1)
         = Returns (JObj [(''a'', JObj [(''b'', JNum 1)])])"
    by code_simp
  from 1 2 3 4 show ?thesis by blast
qed

theorem falsy_intermediate_replaced_witness:
  "''$[\"a\"][0][\"b\"][\"c\"]'' \<noteq> []
   \<and> pathSegments ''$[\"a\"][0][\"b\"][\"c\"]'' = Some [Str ''a'', Num 0, Str ''b'', Str ''c'']
   \<and> list_all safe_segment [Str ''a'', Num 0, Str ''b'', Str ''c'']
   \<and> map property_key [Str ''a'', Num 0, Str ''b'', Str ''c''] = [''a''] @ ''0'' # [''b'', ''c'']
   \<and> lookup_path (JObj [(''a'', JArr [JNum 0])]) [''a''] = Some (JArr [JNum 0])
   \<and> get_own (JArr [JNum 0]) ''0'' = Some (JNum 0)
   \<and> \<not> truthy (JNum 0)
   \<and> creatable [''b'', ''c'']
   \<and> vivify (JArr [JNum 0]) ''0'' = Returns (JObj [])
   \<and> updateJsonAtPath (JObj [(''a'', JArr [JNum 0])]) ''$[\"a\"][0][\"b\"][\"c\"]'' (JNum 1)
       = Returns (JObj [(''a'', JArr [JObj [(''b'', JObj [(''c'', JNum 1)])]])])
   \<and> lookup_path (JObj [(''a'', JArr [JObj [(''b'', JObj [(''c'', JNum 1)])]])]) ([''a''] @ [''0''])
       = Some (nested [''b'', ''c''] (JNum 1))"
proof -
  have p: "''$[\"a\"][0][\"b\"][\"c\"]'' \<noteq> []" by simp
  have s: "pathSegments ''$[\"a\"][0][\"b\"][\"c\"]'' = Some [Str ''a'', Num 0, Str ''b'', Str ''c'']"
    by code_simp
  have l: "list_all safe_segment [Str ''a'', Num 0, Str ''b'', Str ''c'']"
    by (simp add: safe_integer_def)
  have m: "map property_key [Str ''a'', Num 0, Str ''b'', Str ''c''] = [''a''] @ ''0'' # [''b'', ''c'']"
    by code_simp
  have ne: "[''b'', ''c''] \<noteq> []" by simp
  have lp: "lookup_path (JObj [(''a'', JArr [JNum 0])]) [''a''] = Some (JArr [JNum 0])" by simp
  have g: "get_own (JArr [JNum 0]) ''0'' = Some (JNum 0)" by code_simp
  have f: "\<not> truthy (JNum 0)" by simp
  have c: "creatable [''b'', ''c'']" by (simp add: creatable_def Object_prototype_keys_def)
  have u: "updateJsonAtPath (JObj [(''a'', JArr [JNum 0])]) ''$[\"a\"][0][\"b\"][\"c\"]'' (JNum 1)
       = Returns (JObj [(''a'', JArr [JObj [(''b'', JObj [(''c'', JNum 1)])]])])" by code_simp
  from falsy_intermediate_replaced [OF p s l m ne lp g, of "JNum 1"] p s l m lp g f c u
  show ?thesis by simp
qed

text \<open>The four falsy values under \<^verbatim>\<open>a\<close>, for every new value.\<close>

lemma falsy_values_replaced:
  "updateJsonAtPath (JObj [(''a'', JNull)]) ''$[\"a\"][\"b\"]'' v
     = Returns (JObj [(''a'', JObj [(''b'', v)])])
   \<and> updateJsonAtPath (JObj [(''a'', JBool False)]) ''$[\"a\"][\"b\"]'' v
     = Returns (JObj [(''a'', JObj [(''b'', v)])])
   \<and> updateJsonAtPath (JObj [(''a'', JNum 0)]) ''$[\"a\"][\"b\"]'' v
     = Returns (JObj [(''a'', JObj [(''b'', v)])])
   \<and> updateJsonAtPath (JObj [(''a'', JStr [])]) ''$[\"a\"][\"b\"]'' v
     = Returns (JObj [(''a'', JObj [(''b'', v)])])
   \<and> updateJsonAtPath (JObj [(''a'', JNum 0)]) ''$[\"a\"][\"b\"]'' (JNum 1)
     = Returns (JObj [(''a'', JObj [(''b'', JNum 1)])])"
  by code_simp


section \<open>Properties of \<^verbatim>\<open>normalizeNodeData\<close>\<close>







text \<open>
  C4. The claim includes every keyed row whose value is a scalar, \<^verbatim>\<open>null\<close> among them.
  The code tests \<^verbatim>\<open>typeof row.value !== "object"\<close>, and \<^verbatim>\<open>typeof null\<close> is
  \<^verbatim>\<open>"object"\<close>: of the rows \<^verbatim>\<open>{key: "a", value: null}\<close> and \<^verbatim>\<open>{key: "b", value: 1}\<close>
  only the second reaches the output, which is the text of \<^verbatim>\<open>{"b": 1}\<close>.
\<close>

theorem null_row_dropped:
  "compactJson [\<lparr>key = Some ''a'', val = JNull, type = ''null''\<rparr>,
                \<lparr>key = Some ''b'', val = JNum 1, type = ''number''\<rparr>] = JObj [(''b'', JNum 1)]
   \<and> normalizeNodeData [\<lparr>key = Some ''a'', val = JNull, type = ''null''\<rparr>,
                \<lparr>key = Some ''b'', val = JNum 1, type = ''number''\<rparr>]
       = ''{'' @ [CHR 0x0A] @ ''  \"b\": 1'' @ [CHR 0x0A] @ ''}''"
  by code_simp

section \<open>Properties of \<^verbatim>\<open>handleSave\<close>\<close>

lemma setContents_fields [simp]:
  "toasts (setContents t st) = toasts st"
  "selectedNode (setContents t st) = selectedNode st"
  "isEditing (setContents t st) = isEditing st"
  "editedContent (setContents t st) = editedContent st"
  by (simp_all add: setContents_def)

text \<open>A Save whose edit buffer does not parse reports the failure and changes nothing else.\<close>

lemma malformed_edit_text:
  assumes "JSON_parse (editedContent st) = None"
  shows "handleSave JSON_parse st = Some (report_failure st)"
  using assms by (simp add: handleSave_def)

text \<open>
  C8. After a successful Save with parsed value \<open>P\<close> and a node selected, the rows of the
  selected node are the entries of \<open>P\<close>, one row per entry and in their order, each with
  the entry's key, its value whatever its shape, and the type tag \<^verbatim>\<open>default\<close>; for an
  object \<open>P\<close> the entries are its own properties. This holds of \<^verbatim>\<open>handleSave\<close> and, for
  any text the patch may have produced, of the statements that follow the patch.
\<close>

theorem rows_rebuilt_from_entries:
  assumes "selectedNode st = Some n"
    and "toasts st' = toasts st @ [Success ''JSON updated successfully!'']"
    and "st' = commit_save txt P st
         \<or> (handleSave JSON_parse st = Some st' \<and> JSON_parse (editedContent st) = Some P)"
  shows "\<exists>entries. Object_entries P = Some entries
           \<and> map_option node_text (selectedNode st')
               = Some (map (\<lambda>e. \<lparr>key = Some (fst e), val = snd e, type = ''default''\<rparr>) entries)
           \<and> (\<forall>kvs. P = JObj kvs \<longrightarrow> entries = kvs)"
proof -
  have c: "\<exists>t. st' = commit_save t P st"
    using assms(2,3)
    by (auto simp: handleSave_def report_failure_def split: option.splits outcome.splits)
  then obtain t where t: "st' = commit_save t P st" by blast
  from assms(1,2) t show ?thesis
    by (cases P)
      (auto simp: commit_save_def update_selectedNode_def report_failure_def report_success_def
        entry_row_def)
qed

lemma patch_object_node:
  "updateJsonAtPath (JObj [(''n'', JObj [(''a'', JNum 1)])]) (jsonPathToString (Some [Str ''n'']))
     (JObj [(''a'', JNum 2), (''c'', JObj [])])
   = Returns (JObj [(''n'', JObj [(''a'', JNum 2), (''c'', JObj [])])])"
  by code_simp

lemma save_object_node:
  "handleSave parse_two_texts editing_object_node
   = Some (editing_object_node
      \<lparr>selectedNode := Some \<lparr>node_id = ''1'',
          node_text = [\<lparr>key = Some ''a'', val = JNum 2, type = ''default''\<rparr>,
                       \<lparr>key = Some ''c'', val = JObj [], type = ''default''\<rparr>],
          node_path = Some [Str ''n'']\<rparr>,
       contents := JSON_stringify (JObj [(''n'', JObj [(''a'', JNum 2), (''c'', JObj [])])]),
       setContents_calls := [JSON_stringify (JObj [(''n'', JObj [(''a'', JNum 2), (''c'', JObj [])])])],
       isEditing := False,
       toasts := [Success ''JSON updated successfully!'']\<rparr>)"
  by (simp add: handleSave_def commit_save_def parse_two_texts_def editing_object_node_def
      patch_object_node update_selectedNode_def setContents_def report_success_def entry_row_def)

theorem rows_rebuilt_from_entries_witness:
  "selectedNode editing_object_node
     = Some \<lparr>node_id = ''1'', node_text = [\<lparr>key = Some ''a'', val = JNum 1, type = ''number''\<rparr>],
             node_path = Some [Str ''n'']\<rparr>
   \<and> toasts (the (handleSave parse_two_texts editing_object_node))
       = toasts editing_object_node @ [Success ''JSON updated successfully!'']
   \<and> handleSave parse_two_texts editing_object_node
       = Some (the (handleSave parse_two_texts editing_object_node))
   \<and> parse_two_texts (editedContent editing_object_node) = Some (JObj [(''a'', JNum 2), (''c'', JObj [])])
   \<and> map_option node_text (selectedNode (the (handleSave parse_two_texts editing_object_node)))
       = Some [\<lparr>key = Some ''a'', val = JNum 2, type = ''default''\<rparr>,
               \<lparr>key = Some ''c'', val = JObj [], type = ''default''\<rparr>]"
proof -
  have s: "handleSave parse_two_texts editing_object_node
           = Some (the (handleSave parse_two_texts editing_object_node))"
    by (simp add: save_object_node)
  have t: "toasts (the (handleSave parse_two_texts editing_object_node))
           = toasts editing_object_node @ [Success ''JSON updated successfully!'']"
    by (simp add: save_object_node) (simp add: editing_object_node_def)
  have p: "parse_two_texts (editedContent editing_object_node)
           = Some (JObj [(''a'', JNum 2), (''c'', JObj [])])"
    by (simp add: parse_two_texts_def editing_object_node_def)
  have n: "selectedNode editing_object_node
           = Some \<lparr>node_id = ''1'', node_text = [\<lparr>key = Some ''a'', val = JNum 1, type = ''number''\<rparr>],
                   node_path = Some [Str ''n'']\<rparr>"
    by (simp add: editing_object_node_def)
  have d: "the (handleSave parse_two_texts editing_object_node) = commit_save [] (JObj [(''a'', JNum 2), (''c'', JObj [])]) editing_object_node
         \<or> (handleSave parse_two_texts editing_object_node
               = Some (the (handleSave parse_two_texts editing_object_node))
             \<and> parse_two_texts (editedContent editing_object_node)
               = Some (JObj [(''a'', JNum 2), (''c'', JObj [])]))"
    using s p by blast
  from rows_rebuilt_from_entries [OF n t d] obtain entries where
    e: "Object_entries (JObj [(''a'', JNum 2), (''c'', JObj [])]) = Some entries"
    and r: "map_option node_text (selectedNode (the (handleSave parse_two_texts editing_object_node)))
        = Some (map (\<lambda>e. \<lparr>key = Some (fst e), val = snd e, type = ''default''\<rparr>) entries)"
    by blast
  from e have "entries = [(''a'', JNum 2), (''c'', JObj [])]" by simp
  with r n t s p show ?thesis by simp
qed

lemma edit_null_element:
  "handleEditToggle viewing_null_element = viewing_null_element\<lparr>isEditing := True, editedContent := ''null''\<rparr>"
  by (simp add: handleEditToggle_def viewing_null_element_def normalizeNodeData_def key_truthy_def
      JSON_stringify_def Let_def)

lemma patch_null_element:
  "updateJsonAtPath (JArr [JNum 1, JNull]) (jsonPathToString (Some [Num 1])) JNull = Returns (JArr [JNum 1, JNull])"
  by code_simp

text \<open>
  C3. The claim says that a Save which reports a failure has not written to the
  document store. The code writes first and rebuilds the rows afterwards: with the
  document \<^verbatim>\<open>[1, null]\<close>, the node of the second element selected, Edit and then Save
  of the untouched buffer \<^verbatim>\<open>null\<close>, \<^verbatim>\<open>setContents\<close> is called, then
  \<^verbatim>\<open>Object.entries(null)\<close> throws, and the handler reports \<^verbatim>\<open>Invalid JSON\<close> and stays
  in the editing state.
\<close>

theorem save_null_fails_after_write:
  assumes "JSON_parse ''null'' = Some JNull"
    and "JSON_parse ''[1, null]'' = Some (JArr [JNum 1, JNull])"
  shows "handleSave JSON_parse (handleEditToggle viewing_null_element)
         = Some (viewing_null_element
             \<lparr>isEditing := True, editedContent := ''null'',
              contents := JSON_stringify (JArr [JNum 1, JNull]),
              setContents_calls := [JSON_stringify (JArr [JNum 1, JNull])],
              toasts := [Error ''Invalid JSON. Please check your input.'']\<rparr>)"
  using assms
  by (simp add: edit_null_element handleSave_def)
     (simp add: viewing_null_element_def patch_null_element commit_save_def
        update_selectedNode_def setContents_def report_failure_def)

theorem save_null_fails_after_write_witness:
  "handleSave (\<lambda>s. if s = ''null'' then Some JNull
                     else if s = ''[1, null]'' then Some (JArr [JNum 1, JNull]) else None)
      (handleEditToggle viewing_null_element)
   = Some (viewing_null_element
             \<lparr>isEditing := True, editedContent := ''null'',
              contents := JSON_stringify (JArr [JNum 1, JNull]),
              setContents_calls := [JSON_stringify (JArr [JNum 1, JNull])],
              toasts := [Error ''Invalid JSON. Please check your input.'']\<rparr>)"
  by (rule save_null_fails_after_write) simp_all

section \<open>Mutation and sharing\<close>


















lemma or_new_object_old:
  "or_new_object h found = (h1, child) \<Longrightarrow> a < length h \<Longrightarrow> h1 ! a = h ! a \<and> a < length h1"
  by (auto simp: or_new_object_def nth_append split: option.splits if_splits)






text \<open>
  On the example of the specification the two embeddings agree: the value read off the
  store after the call is the value computed on JSON values.
\<close>

lemma store_agrees_on_example:
  "(case alloc_json (JObj [(''a'', JObj [(''b'', JNum 1)])]) [] of
      (doc, h) \<Rightarrow>
        (case updateJsonAtPath_heap h doc ''$[\"a\"][\"b\"]'' (HNum 2) of
           (h', Returns r) \<Rightarrow> map_option Returns (read_json (Suc (length h')) h' r)
         | (h', TypeError) \<Rightarrow> Some TypeError
         | (h', Outside) \<Rightarrow> Some Outside))
   = Some (updateJsonAtPath (JObj [(''a'', JObj [(''b'', JNum 1)])]) ''$[\"a\"][\"b\"]'' (JNum 2))"
  by code_simp




end
